theory Spec2Isabelle
  imports Complex_Main "HOL-Library.Word"
begin

unbundle bit_operations_syntax

section \<open>Values of type float, as far as the wrapper inspects them\<close>

text \<open>
  \<^verbatim>\<open>Pattanaik00Thread::run\<close> only compares \<^verbatim>\<open>opts.pregamma\<close> with the literal
  \<^verbatim>\<open>1.0f\<close>; every other float is handed on unread. A float is therefore kept as its
  IEEE binary32 bit pattern, and \<^verbatim>\<open>!=\<close> is the IEEE comparison: a NaN differs from
  everything, the two zeros are equal, any other two values are equal when their bits are.
\<close>

type_synonym float = "32 word"

definition float_is_nan :: "float \<Rightarrow> bool" where
  "float_is_nan w \<longleftrightarrow> w AND 0x7F800000 = 0x7F800000 \<and> w AND 0x007FFFFF \<noteq> 0"

definition float_is_zero :: "float \<Rightarrow> bool" where
  "float_is_zero w \<longleftrightarrow> w AND 0x7FFFFFFF = 0"

definition float_ne :: "float \<Rightarrow> float \<Rightarrow> bool" where
  "float_ne a b \<longleftrightarrow>
     float_is_nan a \<or> float_is_nan b \<or> (a \<noteq> b \<and> \<not> (float_is_zero a \<and> float_is_zero b))"

definition float_one :: float where
  "float_one = 0x3F800000"

section \<open>Options, exceptions, signals\<close>

text \<open>
  The fields of \<^verbatim>\<open>tonemapping_options\<close> that the wrapper reads (the struct itself is
  declared in a header outside the sources at hand).
\<close>

record pattanaik_options =
  local :: bool
  multiplier :: float
  cone :: float
  rod :: float
  autolum :: bool

record tonemapping_options =
  xsize :: int
  pregamma :: float
  pattanaikoptions :: pattanaik_options

text \<open>
  What a callee may throw: a \<^verbatim>\<open>pfs::Exception\<close> carrying its message, or anything else
  (the \<^verbatim>\<open>catch(...)\<close> clause does not look at it).
\<close>

datatype exn = PfsException string | OtherException

text \<open>The Qt signals of the wrapper.\<close>

datatype 'img signal =
    SetMaximumSteps int
  | SetValue int
  | TmoError string
  | ImageComputed 'img tonemapping_options
  | Finished

type_synonym addr = nat

text \<open>What \<^verbatim>\<open>run\<close> does that is visible outside it, in program order.\<close>

datatype 'img action =
    CallApplyGamma addr float
  | CallResizeFrame addr int
  | CallFreeFrame addr
  | CallTmo addr pattanaik_options
  | CallToQImage addr
  | Emit "'img signal"

section \<open>The store of frames\<close>

text \<open>
  Frames live in a store indexed by address; a freed cell is \<open>None\<close> and a new frame
  takes the next address, so a pointer obtained from an allocation is distinct from every
  pointer handed out before. The content of a frame is left abstract (\<open>'fr\<close>).
  \<^verbatim>\<open>pfs::DOMIO::freeFrame\<close> releases the frame it is given and does nothing else.
\<close>

type_synonym 'fr heap = "'fr option list"

definition frame_at :: "'fr heap \<Rightarrow> addr \<Rightarrow> 'fr option" where
  "frame_at h a = (if a < length h then h ! a else None)"

definition new_frame :: "'fr heap \<Rightarrow> 'fr \<Rightarrow> addr \<times> 'fr heap" where
  "new_frame h f = (length h, h @ [Some f])"

definition store_frame :: "'fr heap \<Rightarrow> addr \<Rightarrow> 'fr \<Rightarrow> 'fr heap" where
  "store_frame h a f = h[a := Some f]"

definition freeFrame :: "'fr heap \<Rightarrow> addr \<Rightarrow> 'fr heap" where
  "freeFrame h a = h[a := None]"

text \<open>
  Modelled from the spec: \<^verbatim>\<open>pfscopy\<close> (declared in \<^verbatim>\<open>Filter/pfscut.h\<close>, body not in the
  sources at hand). The wrapper "takes ownership of a private copy of the input image":
  a new frame is allocated and receives the content of the argument. Reading through a
  pointer that is not a live frame has no defined result (\<open>None\<close>).
\<close>

definition pfscopy :: "'fr heap \<Rightarrow> addr \<Rightarrow> (addr \<times> 'fr heap) option" where
  "pfscopy h a = (case frame_at h a of None \<Rightarrow> None | Some f \<Rightarrow> Some (new_frame h f))"

section \<open>The callees of the wrapper\<close>

text \<open>
  The free functions that the wrapper calls are declared in the source file and defined
  elsewhere; they are parameters of the model. Each acts on the content of the frame it is
  given. A callee that works in place returns the new content together with the exception
  it raised, if any; a callee that builds a new object returns the exception or the object.
  The tone mapping operator also reports progress through the \<^verbatim>\<open>ProgressHelper\<close>; its
  third argument is the termination flag it can observe.
\<close>

record ('fr, 'img) callees =
  transformColorSpace :: "'fr \<Rightarrow> 'fr"
  applyGammaOnFrame :: "'fr \<Rightarrow> float \<Rightarrow> 'fr \<times> exn option"
  resizeFrame :: "'fr \<Rightarrow> int \<Rightarrow> exn + 'fr"
  pfstmo_pattanaik00 :: "'fr \<Rightarrow> pattanaik_options \<Rightarrow> bool \<Rightarrow> int list \<times> 'fr \<times> exn option"
  fromLDRPFStoQImage :: "'fr \<Rightarrow> exn + 'img"

section \<open>The wrapper object\<close>

text \<open>
  Modelled from the spec: \<^verbatim>\<open>ProgressHelper\<close>, a class that is not in the sources at
  hand. It is the progress handle of the design document: a caller requests termination
  (\<^verbatim>\<open>ph->terminate(true)\<close>), the computation polls the request
  (\<^verbatim>\<open>ph->isTerminationRequested()\<close>), and a new handle has none pending. The member
  \<open>ph\<close> of the wrapper is kept as this flag; the other members are those of
  \<^verbatim>\<open>Pattanaik00Thread\<close>.
\<close>

record pattanaik00_thread =
  workingframe :: addr
  originalxsize :: int
  opts :: tonemapping_options
  ph :: bool

text \<open>
  The process: the static member \<^verbatim>\<open>Pattanaik00Thread::counter\<close>, the frames, and every
  wrapper object ever constructed (\<open>None\<close> once destroyed).
\<close>

record 'fr world =
  counter :: int
  heap :: "'fr heap"
  threads :: "pattanaik00_thread option list"

definition INT_MAX :: int where
  "INT_MAX = 2147483647"

text \<open>\<^verbatim>\<open>int Pattanaik00Thread::counter = 0;\<close> and no wrapper yet.\<close>

definition init_world :: "'fr heap \<Rightarrow> 'fr world" where
  "init_world h = \<lparr>counter = 0, heap = h, threads = []\<rparr>"

text \<open>
  The constructor, lines 39 to 51. \<open>None\<close> stands for undefined behaviour:
  \<^verbatim>\<open>frame\<close> is not a live frame, or \<^verbatim>\<open>counter++\<close> overflows \<^verbatim>\<open>int\<close>. The two
  allocations and the conversion from RGB to XYZ, which works in place on the channels of
  the working frame, are taken to succeed.
\<close>

definition Pattanaik00Thread ::
  "('fr, 'img) callees \<Rightarrow> addr \<Rightarrow> int \<Rightarrow> tonemapping_options \<Rightarrow> 'fr world
     \<Rightarrow> (pattanaik00_thread \<times> 'fr world) option" where
  "Pattanaik00Thread C frame xorigsize o_opts w =
     (case pfscopy (heap w) frame of
        None \<Rightarrow> None
      | Some (wp, h1) \<Rightarrow>
          if counter w = INT_MAX then None
          else
            (case frame_at h1 wp of
               None \<Rightarrow> None
             | Some rgb \<Rightarrow>
                 Some (\<lparr>workingframe = wp, originalxsize = xorigsize, opts = o_opts, ph = False\<rparr>,
                       w\<lparr>counter := counter w + 1,
                         heap := store_frame h1 wp (transformColorSpace C rgb)\<rparr>)))"

text \<open>The destructor: \<^verbatim>\<open>delete ph;\<close> and nothing else.\<close>

definition destroy :: "pattanaik00_thread \<Rightarrow> 'fr world \<Rightarrow> 'fr world" where
  "destroy t w = w"

text \<open>\<^verbatim>\<open>terminateRequested\<close>: \<^verbatim>\<open>ph->terminate(true);\<close>\<close>

definition terminateRequested :: "pattanaik00_thread \<Rightarrow> pattanaik00_thread" where
  "terminateRequested t = t\<lparr>ph := True\<rparr>"

section \<open>run\<close>

text \<open>
  \<^verbatim>\<open>run\<close> executes in its own thread while \<^verbatim>\<open>terminateRequested\<close> may be called from
  another one. Only two reads of the flag exist: by the operator, and by the test before
  the result is emitted; so a request that lands during \<^verbatim>\<open>run\<close> is placed by where it
  lands relative to these reads.
\<close>

datatype arrival = NoRequest | WhileOperator | AfterOperator

text \<open>
  How a piece of \<^verbatim>\<open>run\<close> ends: it falls through to the next statement, it executes
  \<^verbatim>\<open>return\<close>, an exception leaves it, or it touches a frame that is not live.
\<close>

datatype flow = Next | Return | Throw exn | Undefined

record ('fr, 'img) run_state =
  rs_thread :: pattanaik00_thread
  rs_heap :: "'fr heap"
  rs_log :: "'img action list"

type_synonym ('fr, 'img) stage = "('fr, 'img) run_state \<Rightarrow> flow \<times> ('fr, 'img) run_state"

definition and_then :: "('fr, 'img) stage \<Rightarrow> ('fr, 'img) stage \<Rightarrow> ('fr, 'img) stage" where
  "and_then p q s = (case p s of (Next, s') \<Rightarrow> q s' | (fl, s') \<Rightarrow> (fl, s'))"

definition logged :: "'img action list \<Rightarrow> ('fr, 'img) run_state \<Rightarrow> ('fr, 'img) run_state" where
  "logged as s = s\<lparr>rs_log := rs_log s @ as\<rparr>"

text \<open>Lines 59 to 61.\<close>

definition gamma_stage :: "('fr, 'img) callees \<Rightarrow> ('fr, 'img) stage" where
  "gamma_stage C s =
     (let t = rs_thread s; wp = workingframe t; g = pregamma (opts t) in
      if float_ne g float_one then
        (case frame_at (rs_heap s) wp of
           None \<Rightarrow> (Undefined, s)
         | Some f \<Rightarrow>
             (case applyGammaOnFrame C f g of
                (f', ex) \<Rightarrow>
                  ((case ex of None \<Rightarrow> Next | Some e \<Rightarrow> Throw e),
                   logged [CallApplyGamma wp g] (s\<lparr>rs_heap := store_frame (rs_heap s) wp f'\<rparr>))))
      else (Next, s))"

text \<open>Lines 63 to 67.\<close>

definition resize_stage :: "('fr, 'img) callees \<Rightarrow> ('fr, 'img) stage" where
  "resize_stage C s =
     (let t = rs_thread s; wp = workingframe t; xs = xsize (opts t) in
      if xs \<noteq> originalxsize t then
        (case frame_at (rs_heap s) wp of
           None \<Rightarrow> (Undefined, s)
         | Some f \<Rightarrow>
             (case resizeFrame C f xs of
                Inl e \<Rightarrow> (Throw e, logged [CallResizeFrame wp xs] s)
              | Inr r \<Rightarrow>
                  (case new_frame (rs_heap s) r of
                     (resized, h1) \<Rightarrow>
                       (Next,
                        logged [CallResizeFrame wp xs, CallFreeFrame wp]
                          (s\<lparr>rs_thread := t\<lparr>workingframe := resized\<rparr>,
                             rs_heap := freeFrame h1 wp\<rparr>)))))
      else (Next, s))"

text \<open>Lines 69 and 70.\<close>

definition announce_stage :: "('fr, 'img) stage" where
  "announce_stage s = (Next, logged [Emit (SetMaximumSteps 100)] s)"

text \<open>
  Lines 71 to 88: the call of the operator inside \<^verbatim>\<open>try\<close>, with both handlers. The
  progress values the operator posts reach the outside as \<^verbatim>\<open>setValue\<close> signals through
  the connection made in line 69.
\<close>

definition what :: "exn \<Rightarrow> string" where
  "what e = (case e of PfsException m \<Rightarrow> m | OtherException \<Rightarrow> ''Failed to tonemap image'')"

definition tmo_stage :: "('fr, 'img) callees \<Rightarrow> arrival \<Rightarrow> ('fr, 'img) stage" where
  "tmo_stage C arr s =
     (let t = (rs_thread s)\<lparr>ph := ph (rs_thread s) \<or> arr = WhileOperator\<rparr>;
          wp = workingframe t; po = pattanaikoptions (opts t) in
      case frame_at (rs_heap s) wp of
        None \<Rightarrow> (Undefined, s)
      | Some f \<Rightarrow>
          (case pfstmo_pattanaik00 C f po (ph t) of
             (progress, f', ex) \<Rightarrow>
               (let s1 = logged (CallTmo wp po # map (\<lambda>v. Emit (SetValue v)) progress)
                           (s\<lparr>rs_thread := t, rs_heap := store_frame (rs_heap s) wp f'\<rparr>) in
                case ex of
                  None \<Rightarrow> (Next, s1)
                | Some e \<Rightarrow>
                    (Return,
                     logged [CallFreeFrame wp, Emit (TmoError (what e))]
                       (s1\<lparr>rs_heap := freeFrame (rs_heap s1) wp\<rparr>)))))"

text \<open>Lines 89 to 95.\<close>

definition finish_stage :: "('fr, 'img) callees \<Rightarrow> arrival \<Rightarrow> ('fr, 'img) stage" where
  "finish_stage C arr s =
     (let t = (rs_thread s)\<lparr>ph := ph (rs_thread s) \<or> arr = AfterOperator\<rparr>;
          wp = workingframe t in
      case frame_at (rs_heap s) wp of
        None \<Rightarrow> (Undefined, s)
      | Some f \<Rightarrow>
          (case fromLDRPFStoQImage C f of
             Inl e \<Rightarrow> (Throw e, logged [CallToQImage wp] s)
           | Inr res \<Rightarrow>
               (let s1 = logged [CallToQImage wp, CallFreeFrame wp]
                           (s\<lparr>rs_thread := t, rs_heap := freeFrame (rs_heap s) wp\<rparr>) in
                if \<not> ph t then
                  (Next, logged [Emit (ImageComputed res (opts t)), Emit Finished] s1)
                else (Next, s1))))"

definition run_stages :: "('fr, 'img) callees \<Rightarrow> arrival \<Rightarrow> ('fr, 'img) stage" where
  "run_stages C arr =
     and_then (gamma_stage C)
       (and_then (resize_stage C)
          (and_then announce_stage
             (and_then (tmo_stage C arr) (finish_stage C arr))))"

text \<open>The state in which \<^verbatim>\<open>run\<close> is entered: nothing done yet.\<close>

definition start :: "pattanaik00_thread \<Rightarrow> 'fr heap \<Rightarrow> ('fr, 'img) run_state" where
  "start t h = \<lparr>rs_thread = t, rs_heap = h, rs_log = []\<rparr>"

definition run ::
  "('fr, 'img) callees \<Rightarrow> arrival \<Rightarrow> pattanaik00_thread \<Rightarrow> 'fr heap
     \<Rightarrow> flow \<times> ('fr, 'img) run_state" where
  "run C arr t h = run_stages C arr (start t h)"

section \<open>The life of the process\<close>

text \<open>
  The operations on wrappers, as the application issues them. A wrapper is named by its
  position in \<open>threads\<close>. Each operation is taken as one step; concurrent runs work on
  frames of their own (see \<open>run\<close>), so the order in which their steps are taken does not
  matter here.
\<close>

datatype event =
    New addr int tonemapping_options
  | Delete nat
  | Run nat arrival
  | TerminateRequested nat

text \<open>
  After a step the process goes on, or it is ended by an exception that left \<^verbatim>\<open>run\<close>,
  or its behaviour is undefined (an operation on a destroyed wrapper or on a freed frame,
  overflow of the counter).
\<close>

datatype 'w outcome = Running 'w | Crashed exn 'w | UB

definition world_of :: "'w outcome \<Rightarrow> 'w option" where
  "world_of oc = (case oc of Running w \<Rightarrow> Some w | Crashed e w \<Rightarrow> Some w | UB \<Rightarrow> None)"

definition thread_at :: "'fr world \<Rightarrow> nat \<Rightarrow> pattanaik00_thread option" where
  "thread_at w i = (if i < length (threads w) then threads w ! i else None)"

fun exec :: "('fr, 'img) callees \<Rightarrow> 'fr world \<Rightarrow> event \<Rightarrow> 'fr world outcome" where
  "exec C w (New frame xorigsize o_opts) =
     (case Pattanaik00Thread C frame xorigsize o_opts w of
        None \<Rightarrow> UB
      | Some (t, w') \<Rightarrow> Running (w'\<lparr>threads := threads w' @ [Some t]\<rparr>))"
| "exec C w (Delete i) =
     (case thread_at w i of
        None \<Rightarrow> UB
      | Some t \<Rightarrow> Running ((destroy t w)\<lparr>threads := (threads w)[i := None]\<rparr>))"
| "exec C w (TerminateRequested i) =
     (case thread_at w i of
        None \<Rightarrow> UB
      | Some t \<Rightarrow> Running (w\<lparr>threads := (threads w)[i := Some (terminateRequested t)]\<rparr>))"
| "exec C w (Run i arr) =
     (case thread_at w i of
        None \<Rightarrow> UB
      | Some t \<Rightarrow>
          (case run C arr t (heap w) of
             (fl, s) \<Rightarrow>
               (let w' = w\<lparr>heap := rs_heap s, threads := (threads w)[i := Some (rs_thread s)]\<rparr> in
                case fl of
                  Undefined \<Rightarrow> UB
                | Throw e \<Rightarrow> Crashed e w'
                | Next \<Rightarrow> Running w'
                | Return \<Rightarrow> Running w')))"

fun exec_all ::
  "('fr, 'img) callees \<Rightarrow> 'fr world outcome \<Rightarrow> event list \<Rightarrow> 'fr world outcome" where
  "exec_all C oc [] = oc"
| "exec_all C (Running w) (e # es) = exec_all C (exec C w e) es"
| "exec_all C (Crashed x w) (e # es) = Crashed x w"
| "exec_all C UB (e # es) = UB"

text \<open>Bookkeeping over a history, used to state what the counter counts.\<close>

fun is_New :: "event \<Rightarrow> bool" where
  "is_New (New frame xorigsize o_opts) = True"
| "is_New e = False"

fun is_Delete :: "event \<Rightarrow> bool" where
  "is_Delete (Delete i) = True"
| "is_Delete e = False"

definition constructions :: "event list \<Rightarrow> nat" where
  "constructions evs = length (filter is_New evs)"

definition destructions :: "event list \<Rightarrow> nat" where
  "destructions evs = length (filter is_Delete evs)"

fun count_live :: "pattanaik00_thread option list \<Rightarrow> nat" where
  "count_live [] = 0"
| "count_live (None # ts) = count_live ts"
| "count_live (Some t # ts) = Suc (count_live ts)"

definition live_computations :: "'fr world \<Rightarrow> nat" where
  "live_computations w = count_live (threads w)"

section \<open>Reading the record of a run\<close>

fun emitted :: "'img action list \<Rightarrow> 'img signal list" where
  "emitted [] = []"
| "emitted (Emit sg # as) = sg # emitted as"
| "emitted (a # as) = emitted as"

fun is_result :: "'img signal \<Rightarrow> bool" where
  "is_result (ImageComputed res o_opts) = True"
| "is_result Finished = True"
| "is_result sg = False"

fun is_tmo_error :: "'img signal \<Rightarrow> bool" where
  "is_tmo_error (TmoError m) = True"
| "is_tmo_error sg = False"

fun is_gamma_call :: "'img action \<Rightarrow> bool" where
  "is_gamma_call (CallApplyGamma a g) = True"
| "is_gamma_call a = False"

text \<open>Lines 59 to 70: everything \<^verbatim>\<open>run\<close> does before it enters the \<^verbatim>\<open>try\<close> block.\<close>

definition to_operator :: "('fr, 'img) callees \<Rightarrow> ('fr, 'img) stage" where
  "to_operator C = and_then (gamma_stage C) (and_then (resize_stage C) announce_stage)"

text \<open>
  Two relations used as invariants. \<open>keeps a s s'\<close>: a frame that is not the working
  frame in \<open>s\<close> is still there, with the same content, in \<open>s'\<close>, and has not become
  the working frame. \<open>untouched a w\<close>: \<open>a\<close> is a frame of the store that no wrapper
  holds as its working frame.
\<close>

definition keeps :: "addr \<Rightarrow> ('fr, 'img) run_state \<Rightarrow> ('fr, 'img) run_state \<Rightarrow> bool" where
  "keeps a s s' \<longleftrightarrow>
     (workingframe (rs_thread s) \<noteq> a \<and> a < length (rs_heap s) \<longrightarrow>
        workingframe (rs_thread s') \<noteq> a \<and> a < length (rs_heap s')
        \<and> frame_at (rs_heap s') a = frame_at (rs_heap s) a)"

definition untouched :: "addr \<Rightarrow> 'fr world \<Rightarrow> bool" where
  "untouched a w \<longleftrightarrow>
     a < length (heap w) \<and> (\<forall>u. Some u \<in> set (threads w) \<longrightarrow> workingframe u \<noteq> a)"

section \<open>The temporal coherence filter\<close>

text \<open>The last line of \<^verbatim>\<open>display_adaptive_tmo.h\<close>.\<close>

definition DATMO_TF_TAPSIZE :: nat where
  "DATMO_TF_TAPSIZE = 26"

text \<open>
  Modelled from the spec: the temporal coherence filter. The header gives its tap size and
  nothing more; the filter itself is not in the sources at hand. After the design document
  (4.5): a sliding window of fixed capacity holds the most recent per-frame tone curves
  (here their ordinates over a shared knot grid, newest first) and is keyed by a frame index
  that only grows; \<open>smooth\<close> takes the curve of the new frame into the window and returns,
  knot by knot, the weighted average of the curves in the window, the weights being
  renormalised over the curves that are there. The document does not fix the weights: tap
  \<open>i\<close> (the curve \<open>i\<close> frames back) has weight \<open>wt i\<close>.
\<close>

record tc_filter =
  window :: "real list list"
  frame_index :: nat

definition new_filter :: tc_filter where
  "new_filter = \<lparr>window = [], frame_index = 0\<rparr>"

definition push_curve :: "real list \<Rightarrow> tc_filter \<Rightarrow> tc_filter" where
  "push_curve c F =
     \<lparr>window = take DATMO_TF_TAPSIZE (c # window F), frame_index = Suc (frame_index F)\<rparr>"

definition weighted_knot :: "(nat \<Rightarrow> real) \<Rightarrow> real list list \<Rightarrow> nat \<Rightarrow> real" where
  "weighted_knot wt win j =
     (\<Sum>i\<leftarrow>[0..<length win]. wt i * (win ! i ! j)) / (\<Sum>i\<leftarrow>[0..<length win]. wt i)"

definition smooth :: "(nat \<Rightarrow> real) \<Rightarrow> real list \<Rightarrow> tc_filter \<Rightarrow> real list \<times> tc_filter" where
  "smooth wt c F =
     (let F' = push_curve c F in (map (weighted_knot wt (window F')) [0..<length c], F'))"

text \<open>The filter after a sequence of frames has gone through \<open>smooth\<close>.\<close>

definition feed :: "(nat \<Rightarrow> real) \<Rightarrow> real list list \<Rightarrow> tc_filter \<Rightarrow> tc_filter" where
  "feed wt cs F = fold (\<lambda>c G. snd (smooth wt c G)) cs F"

section \<open>Sample inputs\<close>

text \<open>
  Concrete callees over frames and images that are just numbers, so that every step they
  take can be told apart, and a few wrappers to run them on.
\<close>

definition sample_callees :: "(nat, nat) callees" where
  "sample_callees =
     \<lparr>transformColorSpace = (\<lambda>f. f + 1),
      applyGammaOnFrame = (\<lambda>f g. (f + 10, None)),
      resizeFrame = (\<lambda>f x. Inr (f + 100)),
      pfstmo_pattanaik00 = (\<lambda>f po fl. ([0, 50, 100], f + 1000, None)),
      fromLDRPFStoQImage = (\<lambda>f. Inr f)\<rparr>"

definition failing_operator :: "(nat, nat) callees" where
  "failing_operator =
     sample_callees\<lparr>pfstmo_pattanaik00 :=
       (\<lambda>f po fl. ([0, 50], f, Some (PfsException ''pfstmo_pattanaik00: aborted'')))\<rparr>"

definition failing_resize :: "(nat, nat) callees" where
  "failing_resize =
     sample_callees\<lparr>resizeFrame := (\<lambda>f x. Inl (PfsException ''resizeFrame: bad size''))\<rparr>"

definition sample_pattanaik :: pattanaik_options where
  "sample_pattanaik =
     \<lparr>local = False, multiplier = float_one, cone = float_one, rod = float_one,
      autolum = True\<rparr>"

definition sample_opts :: tonemapping_options where
  "sample_opts = \<lparr>xsize = 400, pregamma = float_one, pattanaikoptions = sample_pattanaik\<rparr>"

definition float_two :: float where
  "float_two = 0x40000000"

definition sample_thread :: pattanaik00_thread where
  "sample_thread = \<lparr>workingframe = 1, originalxsize = 400, opts = sample_opts, ph = False\<rparr>"

definition sample_heap :: "nat heap" where
  "sample_heap = [Some 7, Some 8]"

text \<open>A wrapper whose frame has to be resized, and one that asks for a pregamma of 2.\<close>

definition resized_thread :: pattanaik00_thread where
  "resized_thread = sample_thread\<lparr>originalxsize := 800\<rparr>"

definition gamma_thread :: pattanaik00_thread where
  "gamma_thread = sample_thread\<lparr>opts := sample_opts\<lparr>pregamma := float_two\<rparr>\<rparr>"

definition plain_run :: "flow \<times> (nat, nat) run_state" where
  "plain_run = run sample_callees NoRequest sample_thread sample_heap"

definition gamma_run :: "flow \<times> (nat, nat) run_state" where
  "gamma_run = run sample_callees NoRequest gamma_thread sample_heap"

definition cancelled_run :: "flow \<times> (nat, nat) run_state" where
  "cancelled_run = run sample_callees AfterOperator sample_thread sample_heap"

definition failed_run :: "flow \<times> (nat, nat) run_state" where
  "failed_run = run failing_operator NoRequest sample_thread sample_heap"

definition resize_fault_run :: "flow \<times> (nat, nat) run_state" where
  "resize_fault_run = run failing_resize NoRequest resized_thread sample_heap"

text \<open>
  A history of two wrappers: both are built from frames of the caller, the first runs to
  its end, and is destroyed at last; the second is asked to terminate before it runs.
\<close>

definition rest_history :: "event list" where
  "rest_history = [Run 0 NoRequest, TerminateRequested 1, Run 1 NoRequest, Delete 0]"

definition sample_history :: "event list" where
  "sample_history = New 0 400 sample_opts # New 1 800 sample_opts # rest_history"

definition one_wrapper :: "nat world" where
  "one_wrapper =
     \<lparr>counter = 1, heap = [Some 7, Some 8, Some 8],
      threads = [Some \<lparr>workingframe = 2, originalxsize = 400, opts = sample_opts,
                       ph = False\<rparr>]\<rparr>"

definition sample_final :: "nat world" where
  "sample_final =
     \<lparr>counter = 2, heap = [Some 7, Some 8, None, None, None],
      threads = [None,
                 Some \<lparr>workingframe = 4, originalxsize = 800, opts = sample_opts,
                       ph = True\<rparr>]\<rparr>"

text \<open>Tap weights that fall off with the age of the frame.\<close>

definition sample_weights :: "nat \<Rightarrow> real" where
  "sample_weights i = 1 / real (Suc i)"

section \<open>Floats and sequencing\<close>

lemma float_one_not_nan: "\<not> float_is_nan float_one"
  by (simp add: float_is_nan_def float_one_def)

lemma float_one_not_zero: "\<not> float_is_zero float_one"
  by (simp add: float_is_zero_def float_one_def)

lemma float_ne_one: "float_ne g float_one \<longleftrightarrow> g \<noteq> float_one"
proof (cases "float_is_nan g")
  case True
  then have "g \<noteq> float_one" using float_one_not_nan by auto
  with True show ?thesis by (simp add: float_ne_def)
next
  case False
  then show ?thesis by (simp add: float_ne_def float_one_not_nan float_one_not_zero)
qed

lemma and_then_Next: "p s = (Next, s') \<Longrightarrow> and_then p q s = q s'"
  by (simp add: and_then_def)

lemma and_then_stop: "p s = (fl, s') \<Longrightarrow> fl \<noteq> Next \<Longrightarrow> and_then p q s = (fl, s')"
  by (cases fl) (simp_all add: and_then_def)

lemma and_then_cases:
  assumes "and_then p q s = (fl, s2)"
  obtains (stop) "p s = (fl, s2)" "fl \<noteq> Next"
        | (go) s1 where "p s = (Next, s1)" "q s1 = (fl, s2)"
  using assms by (cases "p s") (auto simp: and_then_def split: flow.splits)

lemma keeps_gamma: "gamma_stage C s = (fl, s') \<Longrightarrow> keeps a s s'"
  by (auto simp: gamma_stage_def keeps_def Let_def logged_def store_frame_def frame_at_def
      split: if_splits option.splits prod.splits)

lemma keeps_resize: "resize_stage C s = (fl, s') \<Longrightarrow> keeps a s s'"
  by (auto simp: resize_stage_def keeps_def Let_def logged_def store_frame_def frame_at_def
       new_frame_def freeFrame_def nth_append
      split: if_splits option.splits prod.splits sum.splits)

lemma keeps_announce: "announce_stage s = (fl, s') \<Longrightarrow> keeps a s s'"
  by (auto simp: announce_stage_def keeps_def logged_def)

lemma keeps_tmo: "tmo_stage C arr s = (fl, s') \<Longrightarrow> keeps a s s'"
  by (auto simp: tmo_stage_def keeps_def Let_def logged_def store_frame_def frame_at_def
       freeFrame_def
      split: if_splits option.splits prod.splits)

lemma keeps_finish: "finish_stage C arr s = (fl, s') \<Longrightarrow> keeps a s s'"
  by (auto simp: finish_stage_def keeps_def Let_def logged_def store_frame_def frame_at_def
       freeFrame_def
      split: if_splits option.splits prod.splits sum.splits)

lemma keeps_trans: "keeps a s s1 \<Longrightarrow> keeps a s1 s2 \<Longrightarrow> keeps a s s2"
  by (auto simp: keeps_def)

lemma keeps_and_then:
  assumes p: "\<And>s fl s'. p s = (fl, s') \<Longrightarrow> keeps a s s'"
      and q: "\<And>s fl s'. q s = (fl, s') \<Longrightarrow> keeps a s s'"
      and r: "and_then p q s = (fl, s2)"
  shows "keeps a s s2"
  using r
proof (cases rule: and_then_cases)
  case stop
  then show ?thesis using p by blast
next
  case (go s1)
  then show ?thesis using p q keeps_trans by blast
qed

lemma keeps_run_stages: "run_stages C arr s = (fl, s') \<Longrightarrow> keeps a s s'"
  unfolding run_stages_def
  by (erule keeps_and_then [rotated 2])
     (erule keeps_gamma keeps_resize keeps_announce keeps_tmo keeps_finish
        keeps_and_then [rotated 2])+

section \<open>What each piece of run emits and changes\<close>

lemma emitted_append: "emitted (xs @ ys) = emitted xs @ emitted ys"
  by (induction xs rule: emitted.induct) simp_all

lemma emitted_map_SetValue: "emitted (map (\<lambda>v. Emit (SetValue v)) pr) = map SetValue pr"
  by (induction pr) simp_all

lemma run_stages_cases:
  assumes "run_stages C arr s0 = (fl, s)"
  obtains
    (gamma) "gamma_stage C s0 = (fl, s)" "fl \<noteq> Next"
  | (resize) s1 where "gamma_stage C s0 = (Next, s1)" "resize_stage C s1 = (fl, s)" "fl \<noteq> Next"
  | (tmo) s1 s2 where "gamma_stage C s0 = (Next, s1)" "resize_stage C s1 = (Next, s2)"
      "tmo_stage C arr (logged [Emit (SetMaximumSteps 100)] s2) = (fl, s)" "fl \<noteq> Next"
  | (finish) s1 s2 s4 where "gamma_stage C s0 = (Next, s1)" "resize_stage C s1 = (Next, s2)"
      "tmo_stage C arr (logged [Emit (SetMaximumSteps 100)] s2) = (Next, s4)"
      "finish_stage C arr s4 = (fl, s)"
proof -
  from assms show ?thesis
    unfolding run_stages_def
  proof (cases rule: and_then_cases)
    case stop
    then show ?thesis using gamma by blast
  next
    case (go s1)
    from go(2) show ?thesis
    proof (cases rule: and_then_cases)
      case stop
      then show ?thesis using resize go(1) by blast
    next
      case (go s2)
      note r = \<open>resize_stage C s1 = (Next, s2)\<close>
      from go(2) show ?thesis
      proof (cases rule: and_then_cases)
        case stop
        then show ?thesis by (simp add: announce_stage_def)
      next
        case (go s3)
        then have s3: "s3 = logged [Emit (SetMaximumSteps 100)] s2"
          by (simp add: announce_stage_def)
        from go(2) show ?thesis
        proof (cases rule: and_then_cases)
          case stop
          then show ?thesis using tmo \<open>gamma_stage C s0 = (Next, s1)\<close> r s3 by blast
        next
          case (go s4)
          then show ?thesis using finish \<open>gamma_stage C s0 = (Next, s1)\<close> r s3 by blast
        qed
      qed
    qed
  qed
qed

lemma gamma_effect:
  assumes "gamma_stage C s = (fl, s')"
  shows "rs_thread s' = rs_thread s" and "emitted (rs_log s') = emitted (rs_log s)"
    and "length (rs_heap s') = length (rs_heap s)"
  using assms
  by (auto simp: gamma_stage_def Let_def logged_def emitted_append store_frame_def
      split: if_splits option.splits prod.splits)

lemma resize_effect:
  assumes "resize_stage C s = (fl, s')"
  shows "ph (rs_thread s') = ph (rs_thread s)" and "opts (rs_thread s') = opts (rs_thread s)"
    and "emitted (rs_log s') = emitted (rs_log s)"
  using assms
  by (auto simp: resize_stage_def Let_def logged_def emitted_append new_frame_def
      split: if_splits option.splits prod.splits sum.splits)

lemma resize_frees:
  assumes "resize_stage C s = (Next, s')" "workingframe (rs_thread s') \<noteq> workingframe (rs_thread s)"
  shows "frame_at (rs_heap s') (workingframe (rs_thread s)) = None"
    and "workingframe (rs_thread s) < length (rs_heap s')"
  using assms
  by (auto simp: resize_stage_def Let_def logged_def new_frame_def freeFrame_def frame_at_def
      nth_append
      split: if_splits option.splits prod.splits sum.splits)

lemma tmo_effect_Next:
  assumes "tmo_stage C arr s = (Next, s')"
  shows "ph (rs_thread s') = (ph (rs_thread s) \<or> arr = WhileOperator)"
    and "opts (rs_thread s') = opts (rs_thread s)"
    and "workingframe (rs_thread s') = workingframe (rs_thread s)"
    and "\<exists>pr. emitted (rs_log s') = emitted (rs_log s) @ map SetValue pr"
  using assms
  by (auto simp: tmo_stage_def Let_def logged_def emitted_append emitted_map_SetValue
      split: if_splits option.splits prod.splits)

lemma finish_effect_Next:
  assumes "finish_stage C arr s = (Next, s')" "ph (rs_thread s) \<or> arr = AfterOperator"
  shows "emitted (rs_log s') = emitted (rs_log s)"
    and "frame_at (rs_heap s') (workingframe (rs_thread s')) = None"
    and "workingframe (rs_thread s') = workingframe (rs_thread s)"
    and "CallFreeFrame (workingframe (rs_thread s')) \<in> set (rs_log s')"
  using assms
  by (auto simp: finish_stage_def Let_def logged_def emitted_append freeFrame_def frame_at_def
      split: if_splits option.splits prod.splits sum.splits)

lemma resize_log:
  assumes "resize_stage C s = (fl, s')"
  shows "\<exists>as. rs_log s' = rs_log s @ as \<and> filter is_gamma_call as = []"
  using assms
  by (auto simp: resize_stage_def Let_def logged_def new_frame_def
      split: if_splits option.splits prod.splits sum.splits)

lemma tmo_log:
  assumes "tmo_stage C arr s = (fl, s')"
  shows "\<exists>as. rs_log s' = rs_log s @ as \<and> filter is_gamma_call as = []"
  using assms
  by (auto simp: tmo_stage_def Let_def logged_def filter_map comp_def
      split: if_splits option.splits prod.splits)

lemma finish_log:
  assumes "finish_stage C arr s = (fl, s')"
  shows "\<exists>as. rs_log s' = rs_log s @ as \<and> filter is_gamma_call as = []"
  using assms
  by (auto simp: finish_stage_def Let_def logged_def
      split: if_splits option.splits prod.splits sum.splits)

lemma gamma_log:
  assumes "gamma_stage C s = (fl, s')" "fl \<noteq> Undefined"
  shows "rs_log s' = rs_log s @
     (if float_ne (pregamma (opts (rs_thread s))) float_one
      then [CallApplyGamma (workingframe (rs_thread s)) (pregamma (opts (rs_thread s)))] else [])"
  using assms
  by (auto simp: gamma_stage_def Let_def logged_def
      split: if_splits option.splits prod.splits)

lemma after_gamma_log:
  assumes g: "gamma_stage C s0 = (Next, s1)" and r: "run_stages C arr s0 = (fl, s)"
  shows "\<exists>as. rs_log s = rs_log s1 @ as \<and> filter is_gamma_call as = []"
  using r
proof (cases rule: run_stages_cases)
  case gamma
  then show ?thesis using g by simp
next
  case (resize s1')
  then show ?thesis using g resize_log by fastforce
next
  case (tmo s1' s2)
  then have "s1' = s1" using g by simp
  with tmo obtain as where a: "rs_log s2 = rs_log s1 @ as" "filter is_gamma_call as = []"
    using resize_log by blast
  from tmo_log [OF tmo(3)] obtain bs where
    b: "rs_log s = rs_log (logged [Emit (SetMaximumSteps 100)] s2) @ bs" "filter is_gamma_call bs = []"
    by blast
  have "rs_log s = rs_log s1 @ (as @ Emit (SetMaximumSteps 100) # bs)"
    using a b by (simp add: logged_def)
  moreover have "filter is_gamma_call (as @ Emit (SetMaximumSteps 100) # bs) = []"
    using a b by simp
  ultimately show ?thesis by blast
next
  case (finish s1' s2 s4)
  then have "s1' = s1" using g by simp
  with finish obtain as where a: "rs_log s2 = rs_log s1 @ as" "filter is_gamma_call as = []"
    using resize_log by blast
  from tmo_log [OF finish(3)] obtain bs where
    b: "rs_log s4 = rs_log (logged [Emit (SetMaximumSteps 100)] s2) @ bs" "filter is_gamma_call bs = []"
    by blast
  from finish_log [OF finish(4)] obtain cs where
    c: "rs_log s = rs_log s4 @ cs" "filter is_gamma_call cs = []"
    by blast
  have "rs_log s = rs_log s1 @ (as @ Emit (SetMaximumSteps 100) # bs @ cs)"
    using a b c by (simp add: logged_def)
  moreover have "filter is_gamma_call (as @ Emit (SetMaximumSteps 100) # bs @ cs) = []"
    using a b c by simp
  ultimately show ?thesis by blast
qed

lemma and_then_assoc: "and_then (and_then p q) r = and_then p (and_then q r)"
  by (rule ext) (auto simp: and_then_def split: prod.splits flow.splits)

lemma run_stages_split:
  "run_stages C arr = and_then (to_operator C) (and_then (tmo_stage C arr) (finish_stage C arr))"
  by (simp add: run_stages_def to_operator_def and_then_assoc)

lemma to_operator_emitted:
  assumes "to_operator C (start t h) = (Next, s1)"
  shows "emitted (rs_log s1) = [SetMaximumSteps 100]"
  using assms unfolding to_operator_def
proof (cases rule: and_then_cases)
  case (go sa)
  from go(2) show ?thesis
  proof (cases rule: and_then_cases)
    case inner: (go sb)
    have "emitted (rs_log sa) = []"
      using gamma_effect(2) [OF go(1)] by (simp add: start_def)
    then have "emitted (rs_log sb) = []"
      using resize_effect(3) [OF inner(1)] by simp
    then show ?thesis
      using inner(2) by (auto simp: announce_stage_def logged_def emitted_append)
  qed simp
qed simp

lemma filter_result_progress: "filter is_result (map SetValue pr) = []"
  by (induction pr) simp_all

lemma filter_error_progress: "filter is_tmo_error (map SetValue pr) = []"
  by (induction pr) simp_all

section \<open>The wrapper and its callees\<close>

text \<open>
  C9. \<^verbatim>\<open>opts.pregamma != 1.0f\<close> is false for exactly one float, the bit pattern of 1.0.
  For that value the first step of \<^verbatim>\<open>run\<close> leaves the state as it found it and the run
  never calls \<^verbatim>\<open>applyGammaOnFrame\<close>. For every other value (a NaN too) the first thing
  the run does is the call of \<^verbatim>\<open>applyGammaOnFrame\<close> on the working frame with that value,
  the frame holds what the call made of it before anything else happens, and the call is not
  repeated.
\<close>

theorem pregamma_one_is_skipped:
  assumes live: "frame_at h (workingframe t) = Some f"
      and r: "run C arr t h = (fl, s)"
  shows "float_ne (pregamma (opts t)) float_one = (pregamma (opts t) \<noteq> float_one)
       \<and> (\<not> float_ne (pregamma (opts t)) float_one \<longrightarrow>
            gamma_stage C (start t h) = (Next, start t h)
            \<and> filter is_gamma_call (rs_log s) = [])
       \<and> (float_ne (pregamma (opts t)) float_one \<longrightarrow>
            rs_heap (snd (gamma_stage C (start t h)))
              = store_frame h (workingframe t) (fst (applyGammaOnFrame C f (pregamma (opts t))))
            \<and> (\<exists>as. rs_log s = CallApplyGamma (workingframe t) (pregamma (opts t)) # as
                    \<and> filter is_gamma_call as = []))"
proof (intro conjI impI)
  show "float_ne (pregamma (opts t)) float_one = (pregamma (opts t) \<noteq> float_one)"
    by (rule float_ne_one)
next
  assume eq: "\<not> float_ne (pregamma (opts t)) float_one"
  then show g: "gamma_stage C (start t h) = (Next, start t h)"
    by (simp add: gamma_stage_def start_def Let_def)
  from r have "run_stages C arr (start t h) = (fl, s)" by (simp add: run_def start_def)
  from after_gamma_log [OF g this] show "filter is_gamma_call (rs_log s) = []"
    by (auto simp: start_def)
next
  assume ne: "float_ne (pregamma (opts t)) float_one"
  obtain f' ex where ag: "applyGammaOnFrame C f (pregamma (opts t)) = (f', ex)"
    by (cases "applyGammaOnFrame C f (pregamma (opts t))")
  show "rs_heap (snd (gamma_stage C (start t h)))
              = store_frame h (workingframe t) (fst (applyGammaOnFrame C f (pregamma (opts t))))"
    using ne live ag by (simp add: gamma_stage_def start_def Let_def logged_def)
  from r have rs: "run_stages C arr (start t h) = (fl, s)" by (simp add: run_def start_def)
  obtain gfl s1 where g: "gamma_stage C (start t h) = (gfl, s1)"
    by (cases "gamma_stage C (start t h)")
  have gu: "gfl \<noteq> Undefined"
    using g ne live ag by (auto simp: gamma_stage_def start_def Let_def split: option.splits)
  have l1: "rs_log s1 = [CallApplyGamma (workingframe t) (pregamma (opts t))]"
    using gamma_log [OF g gu] ne by (simp add: start_def)
  show "\<exists>as. rs_log s = CallApplyGamma (workingframe t) (pregamma (opts t)) # as
                    \<and> filter is_gamma_call as = []"
  proof (cases "gfl = Next")
    case True
    with g after_gamma_log [OF _ rs] l1 show ?thesis by auto
  next
    case False
    then have "run_stages C arr (start t h) = (gfl, s1)"
      using g by (simp add: run_stages_def and_then_stop)
    with rs l1 show ?thesis by simp
  qed
qed


theorem pregamma_one_is_skipped_witness:
  "\<not> float_ne (pregamma (opts sample_thread)) float_one
   \<and> filter is_gamma_call (rs_log (snd plain_run)) = []
   \<and> float_ne (pregamma (opts gamma_thread)) float_one
   \<and> hd (rs_log (snd gamma_run)) = CallApplyGamma 1 float_two
   \<and> rs_heap (snd (gamma_stage sample_callees (start gamma_thread sample_heap)))
       = [Some 7, Some 18]"
proof -
  have live1: "frame_at sample_heap (workingframe sample_thread) = Some 8"
    by code_simp
  have live2: "frame_at sample_heap (workingframe gamma_thread) = Some 8"
    by code_simp
  have r1: "run sample_callees NoRequest sample_thread sample_heap
              = (fst plain_run, snd plain_run)"
    by (simp add: plain_run_def)
  have r2: "run sample_callees NoRequest gamma_thread sample_heap
              = (fst gamma_run, snd gamma_run)"
    by (simp add: gamma_run_def)
  have e1: "\<not> float_ne (pregamma (opts sample_thread)) float_one"
    by code_simp
  have e2: "float_ne (pregamma (opts gamma_thread)) float_one"
    by code_simp
  have g: "pregamma (opts gamma_thread) = float_two" "workingframe gamma_thread = 1"
    by (simp_all add: gamma_thread_def sample_thread_def)
  have ag: "store_frame sample_heap 1 (fst (applyGammaOnFrame sample_callees 8 float_two))
              = [Some 7, Some 18]"
    by (simp add: store_frame_def sample_heap_def sample_callees_def)
  from pregamma_one_is_skipped [OF live1 r1] e1
  have a: "filter is_gamma_call (rs_log (snd plain_run)) = []"
    by blast
  from pregamma_one_is_skipped [OF live2 r2] e2
  have b: "rs_heap (snd (gamma_stage sample_callees (start gamma_thread sample_heap)))
             = store_frame sample_heap (workingframe gamma_thread)
                 (fst (applyGammaOnFrame sample_callees 8 (pregamma (opts gamma_thread))))"
    and c: "\<exists>as. rs_log (snd gamma_run)
                  = CallApplyGamma (workingframe gamma_thread) (pregamma (opts gamma_thread)) # as
                \<and> filter is_gamma_call as = []"
    by blast+
  from c have "hd (rs_log (snd gamma_run)) = CallApplyGamma 1 float_two"
    by (auto simp: g)
  with a b e1 e2 ag show ?thesis
    by (simp add: g)
qed

text \<open>
  C4, as the code has it. The \<^verbatim>\<open>try\<close> block holds one call, that of the operator. When
  \<^verbatim>\<open>run\<close> has come as far as the block and \<^verbatim>\<open>pfstmo_pattanaik00\<close> throws, \<^verbatim>\<open>run\<close>
  returns normally; it has freed the working frame and emitted exactly one \<^verbatim>\<open>tmo_error\<close>,
  carrying the message of the \<^verbatim>\<open>pfs::Exception\<close>, or ``Failed to tonemap image'' for any
  other exception, after the progress values and without \<^verbatim>\<open>imageComputed\<close> or
  \<^verbatim>\<open>finished\<close>.
\<close>

theorem operator_failure_reported:
  assumes pre: "to_operator C (start t h) = (Next, s1)"
      and live: "frame_at (rs_heap s1) (workingframe (rs_thread s1)) = Some f"
      and raised: "pfstmo_pattanaik00 C f (pattanaikoptions (opts (rs_thread s1)))
                     (ph (rs_thread s1) \<or> arr = WhileOperator) = (pr, f', Some e)"
  shows "\<exists>s. run C arr t h = (Return, s)
           \<and> emitted (rs_log s) = SetMaximumSteps 100 # map SetValue pr @ [TmoError (what e)]
           \<and> filter is_tmo_error (emitted (rs_log s)) = [TmoError (what e)]
           \<and> filter is_result (emitted (rs_log s)) = []
           \<and> frame_at (rs_heap s) (workingframe (rs_thread s)) = None"
proof -
  define s where "s = snd (tmo_stage C arr s1)"
  have t: "tmo_stage C arr s1 = (Return, s)"
    using live raised by (simp add: s_def tmo_stage_def Let_def)
  have l: "rs_log s = rs_log s1 @ CallTmo (workingframe (rs_thread s1)) (pattanaikoptions (opts (rs_thread s1)))
              # map (\<lambda>v. Emit (SetValue v)) pr
              @ [CallFreeFrame (workingframe (rs_thread s1)), Emit (TmoError (what e))]"
    using live raised by (simp add: s_def tmo_stage_def Let_def logged_def)
  have fr: "frame_at (rs_heap s) (workingframe (rs_thread s)) = None"
    using live raised
    by (auto simp: s_def tmo_stage_def Let_def logged_def store_frame_def freeFrame_def
          frame_at_def split: if_splits)
  have "run C arr t h = and_then (tmo_stage C arr) (finish_stage C arr) s1"
    using pre by (simp add: run_def run_stages_split and_then_Next start_def)
  then have r: "run C arr t h = (Return, s)"
    using t by (simp add: and_then_stop)
  have e: "emitted (rs_log s) = SetMaximumSteps 100 # map SetValue pr @ [TmoError (what e)]"
    using l to_operator_emitted [OF pre] by (simp add: emitted_append emitted_map_SetValue)
  show ?thesis
    using r e fr by (simp add: filter_result_progress filter_error_progress)
qed


theorem operator_failure_reported_witness:
  "fst (to_operator failing_operator (start sample_thread sample_heap)) = Next
   \<and> fst failed_run = Return
   \<and> emitted (rs_log (snd failed_run))
       = [SetMaximumSteps 100, SetValue 0, SetValue 50,
          TmoError ''pfstmo_pattanaik00: aborted'']
   \<and> filter is_result (emitted (rs_log (snd failed_run))) = []"
proof -
  let ?s1 = "snd (to_operator failing_operator (start sample_thread sample_heap))"
  have f: "fst (to_operator failing_operator (start sample_thread sample_heap)) = Next"
    by code_simp
  then have pre: "to_operator failing_operator (start sample_thread sample_heap) = (Next, ?s1)"
    by (simp add: prod_eq_iff)
  have live: "frame_at (rs_heap ?s1) (workingframe (rs_thread ?s1)) = Some 8"
    by code_simp
  have raised: "pfstmo_pattanaik00 failing_operator 8 (pattanaikoptions (opts (rs_thread ?s1)))
                  (ph (rs_thread ?s1) \<or> NoRequest = WhileOperator)
                  = ([0, 50], 8, Some (PfsException ''pfstmo_pattanaik00: aborted''))"
    by (simp add: failing_operator_def)
  from operator_failure_reported [OF pre live raised] f show ?thesis
    by (auto simp: failed_run_def what_def)
qed

text \<open>
  C4, as stated, covers every stage that \<^verbatim>\<open>run\<close> invokes. \<^verbatim>\<open>applyGammaOnFrame\<close>,
  \<^verbatim>\<open>resizeFrame\<close> and \<^verbatim>\<open>fromLDRPFStoQImage\<close> are called outside the \<^verbatim>\<open>try\<close>
  block: here \<^verbatim>\<open>resizeFrame\<close> throws, the exception leaves \<^verbatim>\<open>run\<close>, no
  \<^verbatim>\<open>tmo_error\<close> is emitted and the working frame stays allocated.
\<close>

theorem fault_outside_try_propagates:
  "fst resize_fault_run = Throw (PfsException ''resizeFrame: bad size'')
   \<and> filter is_tmo_error (emitted (rs_log (snd resize_fault_run))) = []
   \<and> frame_at (rs_heap (snd resize_fault_run)) (workingframe resized_thread) = Some 8"
  by code_simp

text \<open>
  C5. Termination has been requested by the time \<^verbatim>\<open>run\<close> reaches the test of line 92
  when the flag was set before \<^verbatim>\<open>run\<close> began or a request arrived while it ran. A run
  that then gets to its end has emitted neither \<^verbatim>\<open>imageComputed\<close> nor \<^verbatim>\<open>finished\<close>
  (its signals are \<^verbatim>\<open>setMaximumSteps\<close> and the progress values only), and it has
  released the working copy: the frame it worked on at the end has been freed, and so has
  the frame the wrapper got at its construction, should a resize have replaced it.
\<close>

theorem termination_suppresses_result:
  assumes r: "run C arr t h = (Next, s)"
      and req: "ph t \<or> arr \<noteq> NoRequest"
  shows "filter is_result (emitted (rs_log s)) = []
       \<and> (\<exists>pr. emitted (rs_log s) = SetMaximumSteps 100 # map SetValue pr)
       \<and> CallFreeFrame (workingframe (rs_thread s)) \<in> set (rs_log s)
       \<and> frame_at (rs_heap s) (workingframe (rs_thread s)) = None
       \<and> frame_at (rs_heap s) (workingframe t) = None"
proof -
  from r have "run_stages C arr (start t h) = (Next, s)"
    by (simp add: run_def start_def)
  then show ?thesis
  proof (cases rule: run_stages_cases)
    case (finish s1 s2 s4)
    let ?s3 = "logged [Emit (SetMaximumSteps 100)] s2"
    have t1: "rs_thread s1 = t" and e1: "emitted (rs_log s1) = []"
      using gamma_effect [OF finish(1)] by (simp_all add: start_def)
    have p2: "ph (rs_thread s2) = ph t" and e2: "emitted (rs_log s2) = []"
      using resize_effect [OF finish(2)] t1 e1 by simp_all
    have p3: "ph (rs_thread ?s3) = ph t" and e3: "emitted (rs_log ?s3) = [SetMaximumSteps 100]"
      and w3: "workingframe (rs_thread ?s3) = workingframe (rs_thread s2)"
      and h3: "rs_heap ?s3 = rs_heap s2"
      using p2 e2 by (simp_all add: logged_def emitted_append)
    have p4: "ph (rs_thread s4) = (ph t \<or> arr = WhileOperator)"
      and w4: "workingframe (rs_thread s4) = workingframe (rs_thread s2)"
      using tmo_effect_Next(1,3) [OF finish(3)] p3 w3 by simp_all
    obtain pr where e4: "emitted (rs_log s4) = SetMaximumSteps 100 # map SetValue pr"
      using tmo_effect_Next(4) [OF finish(3)] e3 by auto
    have flag: "ph (rs_thread s4) \<or> arr = AfterOperator"
      using p4 req by (cases arr) auto
    note fin = finish_effect_Next [OF finish(4) flag]
    have e: "emitted (rs_log s) = SetMaximumSteps 100 # map SetValue pr"
      using fin(1) e4 by simp
    have nores: "filter is_result (emitted (rs_log s)) = []"
      unfolding e by (induction pr) simp_all
    have orig: "frame_at (rs_heap s) (workingframe t) = None"
    proof (cases "workingframe (rs_thread s2) = workingframe t")
      case True
      then show ?thesis using fin(2,3) w4 by simp
    next
      case False
      with resize_frees [OF finish(2)] t1
      have f2: "frame_at (rs_heap s2) (workingframe t) = None"
        and l2: "workingframe t < length (rs_heap s2)" by simp_all
      have k1: "keeps (workingframe t) ?s3 s4" by (rule keeps_tmo [OF finish(3)])
      have k2: "keeps (workingframe t) s4 s" by (rule keeps_finish [OF finish(4)])
      have "keeps (workingframe t) ?s3 s" by (rule keeps_trans [OF k1 k2])
      then show ?thesis using False f2 l2 w3 h3 by (simp add: keeps_def)
    qed
    show ?thesis using nores e fin(2,4) orig by blast
  qed simp_all
qed


theorem termination_suppresses_result_witness:
  "fst cancelled_run = Next
   \<and> filter is_result (emitted (rs_log (snd cancelled_run))) = []
   \<and> frame_at (rs_heap (snd cancelled_run)) (workingframe sample_thread) = None"
proof -
  have f: "fst cancelled_run = Next"
    by code_simp
  then have r: "run sample_callees AfterOperator sample_thread sample_heap
                  = (Next, snd cancelled_run)"
    by (simp add: cancelled_run_def prod_eq_iff)
  have q: "ph sample_thread \<or> AfterOperator \<noteq> NoRequest"
    by simp
  from termination_suppresses_result [OF r q] f show ?thesis
    by simp
qed

section \<open>The static counter\<close>

lemma ctor_effect:
  assumes "Pattanaik00Thread C frame xo o_opts w = Some (t, w1)"
  shows "counter w1 = counter w + 1" and "threads w1 = threads w"
    and "workingframe t = length (heap w)"
    and "length (heap w1) = Suc (length (heap w))"
    and "frame < length (heap w)"
    and "frame_at (heap w) frame \<noteq> None"
    and "frame_at (heap w1) frame = frame_at (heap w) frame"
    and "frame_at (heap w1) (workingframe t) = map_option (transformColorSpace C) (frame_at (heap w) frame)"
    and "frame_at (heap w) (workingframe t) = None"
  using assms
  by (auto simp: Pattanaik00Thread_def pfscopy_def new_frame_def store_frame_def frame_at_def
        nth_append
      split: option.splits if_splits prod.splits)

lemma count_live_append: "count_live (xs @ ys) = count_live xs + count_live ys"
  by (induction xs rule: count_live.induct) simp_all

lemma live_update_None:
  "i < length xs \<Longrightarrow> xs ! i = Some t \<Longrightarrow> Suc (count_live (xs[i := None])) = count_live xs"
proof (induction xs arbitrary: i rule: count_live.induct)
  case 1
  then show ?case by simp
next
  case (2 ts)
  then show ?case by (cases i) auto
next
  case (3 u ts)
  then show ?case by (cases i) auto
qed

lemma live_update_Some:
  "i < length xs \<Longrightarrow> xs ! i = Some t \<Longrightarrow> count_live (xs[i := Some u]) = count_live xs"
proof (induction xs arbitrary: i rule: count_live.induct)
  case 1
  then show ?case by simp
next
  case (2 ts)
  then show ?case by (cases i) auto
next
  case (3 v ts)
  then show ?case by (cases i) auto
qed

lemma thread_at_Some: "thread_at w i = Some t \<Longrightarrow> i < length (threads w) \<and> threads w ! i = Some t"
  by (auto simp: thread_at_def split: if_splits)

lemma exec_counter:
  assumes "world_of (exec C w e) = Some w'"
  shows "counter w' = counter w + (if is_New e then 1 else 0)"
proof (cases e)
  case (New a x o_opts)
  with assms show ?thesis
    by (auto simp: world_of_def ctor_effect(1) split: option.splits)
next
  case (Delete i)
  with assms show ?thesis
    by (auto simp: world_of_def destroy_def split: option.splits)
next
  case (Run i arr)
  with assms show ?thesis
    by (auto simp: world_of_def Let_def split: option.splits prod.splits flow.splits)
next
  case (TerminateRequested i)
  with assms show ?thesis
    by (auto simp: world_of_def split: option.splits)
qed

lemma exec_live:
  assumes "exec C w e = Running w'"
  shows "live_computations w' + (if is_Delete e then 1 else 0)
           = live_computations w + (if is_New e then 1 else 0)"
proof (cases e)
  case (New a x o_opts)
  with assms show ?thesis
    by (auto simp: live_computations_def ctor_effect(2) count_live_append split: option.splits)
next
  case (Delete i)
  with assms show ?thesis
    by (auto simp: live_computations_def destroy_def live_update_None dest!: thread_at_Some
        split: option.splits)
next
  case (Run i arr)
  with assms show ?thesis
    by (auto simp: live_computations_def Let_def live_update_Some dest!: thread_at_Some
        split: option.splits prod.splits flow.splits)
next
  case (TerminateRequested i)
  with assms show ?thesis
    by (auto simp: live_computations_def live_update_Some dest!: thread_at_Some
        split: option.splits)
qed

lemma exec_all_not_Running:
  "(\<And>w. oc \<noteq> Running w) \<Longrightarrow> exec_all C oc evs = oc"
  by (cases oc; cases evs) auto

lemma exec_all_Running_start:
  "exec_all C oc evs = Running w \<Longrightarrow> \<exists>w0. oc = Running w0"
  by (cases oc; cases evs) simp_all

lemma exec_all_append:
  "exec_all C oc (xs @ ys) = exec_all C (exec_all C oc xs) ys"
proof (induction xs arbitrary: oc)
  case Nil
  then show ?case by simp
next
  case (Cons x xs)
  then show ?case by (cases oc) (simp_all add: exec_all_not_Running)
qed

lemma exec_all_counts:
  "exec_all C (Running w0) evs = Running w \<Longrightarrow>
     counter w = counter w0 + int (constructions evs)
     \<and> live_computations w + destructions evs = live_computations w0 + constructions evs"
proof (induction evs arbitrary: w0)
  case Nil
  then show ?case by (simp add: constructions_def destructions_def)
next
  case (Cons e evs)
  from Cons.prems have r: "exec_all C (exec C w0 e) evs = Running w" by simp
  then obtain w1 where e1: "exec C w0 e = Running w1"
    using exec_all_Running_start by blast
  with r have "exec_all C (Running w1) evs = Running w" by simp
  from Cons.IH [OF this] have
    ih: "counter w = counter w1 + int (constructions evs)"
        "live_computations w + destructions evs = live_computations w1 + constructions evs"
    by simp_all
  have c1: "counter w1 = counter w0 + (if is_New e then 1 else 0)"
    using exec_counter [of C w0 e w1] e1 by (simp add: world_of_def)
  note l1 = exec_live [OF e1]
  show ?case using ih c1 l1
    by (auto simp: constructions_def destructions_def split: if_splits)
qed

text \<open>
  C10. The counter is 0 when the process starts. Every step of the process adds 1 to it
  when the step is a construction and leaves it alone otherwise (destruction, \<^verbatim>\<open>run\<close>,
  \<^verbatim>\<open>terminateRequested\<close>). So after every prefix of a history the counter is the number
  of constructions so far, and it is at most what it is at the end. The number of wrappers
  alive is the counter less the number of destructions: the counter does not follow it.
\<close>

theorem counter_counts_constructions:
  assumes "exec_all C (Running (init_world h)) evs = Running w"
  shows "counter (init_world h) = 0
       \<and> (\<forall>n\<le>length evs. \<exists>w1. exec_all C (Running (init_world h)) (take n evs) = Running w1
              \<and> counter w1 = int (constructions (take n evs))
              \<and> counter w1 \<le> counter w)
       \<and> (\<forall>w1 e w2. world_of (exec C w1 e) = Some w2 \<longrightarrow>
              counter w2 = counter w1 + (if is_New e then 1 else 0))
       \<and> int (live_computations w) = counter w - int (destructions evs)"
proof (intro conjI allI impI)
  show "counter (init_world h) = 0" by (simp add: init_world_def)
next
  fix n assume "n \<le> length evs"
  have "exec_all C (exec_all C (Running (init_world h)) (take n evs)) (drop n evs) = Running w"
    using assms exec_all_append [of C _ "take n evs" "drop n evs"] by simp
  then obtain w1 where w1: "exec_all C (Running (init_world h)) (take n evs) = Running w1"
    and rest: "exec_all C (Running w1) (drop n evs) = Running w"
    using exec_all_Running_start by fastforce
  have "counter w1 = int (constructions (take n evs))"
    using exec_all_counts [OF w1] by (simp add: init_world_def)
  moreover have "counter w1 \<le> counter w"
    using exec_all_counts [OF rest] by simp
  ultimately show "\<exists>w1. exec_all C (Running (init_world h)) (take n evs) = Running w1
              \<and> counter w1 = int (constructions (take n evs)) \<and> counter w1 \<le> counter w"
    using w1 by blast
next
  fix w1 :: "'a world" and e w2
  assume "world_of (exec C w1 e) = Some w2"
  then show "counter w2 = counter w1 + (if is_New e then 1 else 0)"
    by (rule exec_counter)
next
  show "int (live_computations w) = counter w - int (destructions evs)"
    using exec_all_counts [OF assms] by (simp add: init_world_def live_computations_def)
qed


theorem counter_counts_constructions_witness:
  "exec_all sample_callees (Running (init_world sample_heap)) sample_history
     = Running sample_final
   \<and> constructions sample_history = 2
   \<and> destructions sample_history = 1
   \<and> counter sample_final = 2
   \<and> live_computations sample_final = 1"
proof -
  have r: "exec_all sample_callees (Running (init_world sample_heap)) sample_history
             = Running sample_final"
    by code_simp
  have c: "constructions sample_history = 2" "destructions sample_history = 1"
    by code_simp+
  note t = counter_counts_constructions [OF r]
  from t have "\<exists>w1. exec_all sample_callees (Running (init_world sample_heap))
                       (take (length sample_history) sample_history) = Running w1
                 \<and> counter w1 = int (constructions (take (length sample_history) sample_history))"
    by blast
  with r have n: "counter sample_final = int (constructions sample_history)"
    by simp
  from t have "int (live_computations sample_final)
                 = counter sample_final - int (destructions sample_history)"
    by blast
  with n r c show ?thesis
    by simp
qed

section \<open>The frame of the caller\<close>

lemma keeps_run:
  assumes "run C arr t h = (fl, s)" "workingframe t \<noteq> a" "a < length h"
  shows "workingframe (rs_thread s) \<noteq> a \<and> a < length (rs_heap s) \<and> frame_at (rs_heap s) a = frame_at h a"
proof -
  from assms(1) have "run_stages C arr (start t h) = (fl, s)" by (simp add: run_def start_def)
  from keeps_run_stages [OF this, of a] assms(2,3) show ?thesis
    by (simp add: keeps_def start_def)
qed

lemma set_update_subset: "x \<in> set (xs[i := y]) \<Longrightarrow> x = y \<or> x \<in> set xs"
  using set_update_subset_insert [of xs i y] by auto

lemma exec_untouched:
  assumes ex: "world_of (exec C w e) = Some w'" and inv: "untouched a w"
  shows "untouched a w' \<and> frame_at (heap w') a = frame_at (heap w) a"
proof (cases e)
  case (New frame xo o_opts)
  with ex obtain t w1 where c: "Pattanaik00Thread C frame xo o_opts w = Some (t, w1)"
    and w': "w' = w1\<lparr>threads := threads w1 @ [Some t]\<rparr>"
    by (auto simp: world_of_def split: option.splits)
  note ce = ctor_effect [OF c]
  have "frame_at (heap w1) a = frame_at (heap w) a"
    using c inv
    by (auto simp: untouched_def Pattanaik00Thread_def pfscopy_def new_frame_def store_frame_def
          frame_at_def nth_append split: option.splits if_splits)
  then show ?thesis using inv ce(2,3,4) w' by (auto simp: untouched_def)
next
  case (Delete i)
  with ex inv show ?thesis
    by (auto simp: world_of_def destroy_def untouched_def split: option.splits
        dest!: set_update_subset)
next
  case (TerminateRequested i)
  with ex obtain t where t: "thread_at w i = Some t"
    and w': "w' = w\<lparr>threads := (threads w)[i := Some (terminateRequested t)]\<rparr>"
    by (auto simp: world_of_def split: option.splits)
  from thread_at_Some [OF t] have "Some t \<in> set (threads w)" by (metis nth_mem)
  with inv have "workingframe t \<noteq> a" by (simp add: untouched_def)
  then show ?thesis using inv w'
    by (auto simp: untouched_def terminateRequested_def dest!: set_update_subset)
next
  case (Run i arr)
  with ex obtain t fl s where t: "thread_at w i = Some t"
    and r: "run C arr t (heap w) = (fl, s)"
    and w': "w' = w\<lparr>heap := rs_heap s, threads := (threads w)[i := Some (rs_thread s)]\<rparr>"
    by (auto simp: world_of_def Let_def split: option.splits prod.splits flow.splits)
  from thread_at_Some [OF t] have "Some t \<in> set (threads w)" by (metis nth_mem)
  with inv have "workingframe t \<noteq> a" "a < length (heap w)" by (simp_all add: untouched_def)
  from keeps_run [OF r this] show ?thesis using inv w'
    by (auto simp: untouched_def dest!: set_update_subset)
qed

lemma exec_all_untouched:
  "world_of (exec_all C oc evs) = Some w' \<Longrightarrow> world_of oc = Some w \<Longrightarrow> untouched a w \<Longrightarrow>
     untouched a w' \<and> frame_at (heap w') a = frame_at (heap w) a"
proof (induction evs arbitrary: oc w)
  case Nil
  then show ?case by simp
next
  case (Cons e evs)
  show ?case
  proof (cases oc)
    case (Running w0)
    with Cons.prems have w0: "w0 = w" and r: "world_of (exec_all C (exec C w e) evs) = Some w'"
      by (simp_all add: world_of_def)
    from r obtain w1 where w1: "world_of (exec C w e) = Some w1"
      by (cases "exec C w e"; cases evs) (auto simp: world_of_def)
    from exec_untouched [OF w1 Cons.prems(3)] Cons.IH [OF r w1] show ?thesis by simp
  next
    case (Crashed x w0)
    with Cons.prems show ?thesis by (simp add: world_of_def)
  next
    case UB
    with Cons.prems show ?thesis by (simp add: world_of_def)
  qed
qed

text \<open>
  C8. Let \<open>frame\<close> be a frame of the caller, that is, one that no wrapper works on. The
  constructor succeeds only if \<open>frame\<close> is live; the working frame it sets up is a frame
  that did not exist before, different from \<open>frame\<close>, and holds the content of \<open>frame\<close>
  taken to XYZ, while \<open>frame\<close> itself is as it was. Whatever is done afterwards with this
  wrapper or any other (construction, \<^verbatim>\<open>run\<close> with its pregamma, resize, tone mapping and
  release, \<^verbatim>\<open>terminateRequested\<close>, destruction), also when a run ends by an exception,
  \<open>frame\<close> keeps its content.
\<close>

theorem callers_frame_never_mutated:
  assumes others: "\<forall>u. Some u \<in> set (threads w) \<longrightarrow> workingframe u \<noteq> frame"
      and hist: "world_of (exec_all C (Running w) (New frame xorigsize o_opts # evs)) = Some w'"
  shows "\<exists>t w1. Pattanaik00Thread C frame xorigsize o_opts w = Some (t, w1)
           \<and> frame_at (heap w) frame \<noteq> None
           \<and> workingframe t \<noteq> frame
           \<and> frame_at (heap w) (workingframe t) = None
           \<and> frame_at (heap w1) (workingframe t)
               = map_option (transformColorSpace C) (frame_at (heap w) frame)
           \<and> frame_at (heap w1) frame = frame_at (heap w) frame
           \<and> frame_at (heap w') frame = frame_at (heap w) frame"
proof -
  from hist have h: "world_of (exec_all C (exec C w (New frame xorigsize o_opts)) evs) = Some w'"
    by simp
  then obtain t w1 where c: "Pattanaik00Thread C frame xorigsize o_opts w = Some (t, w1)"
    by (cases "Pattanaik00Thread C frame xorigsize o_opts w"; cases evs)
       (auto simp: world_of_def)
  note ce = ctor_effect [OF c]
  have u: "untouched frame w" using others ce(5) by (simp add: untouched_def)
  have "frame_at (heap w') frame = frame_at (heap w) frame"
    using exec_all_untouched [OF hist _ u] by (simp add: world_of_def)
  moreover have "workingframe t \<noteq> frame" using ce(3,5) by simp
  ultimately show ?thesis using c ce(6,7,8,9) by simp
qed


theorem callers_frame_never_mutated_witness:
  "world_of (exec_all sample_callees (Running one_wrapper)
               (New 1 800 sample_opts # rest_history)) = Some sample_final
   \<and> frame_at (heap one_wrapper) 1 = Some 8
   \<and> frame_at (heap sample_final) 1 = Some 8"
proof -
  have others: "\<forall>u. Some u \<in> set (threads one_wrapper) \<longrightarrow> workingframe u \<noteq> 1"
    by (simp add: one_wrapper_def)
  have hist: "world_of (exec_all sample_callees (Running one_wrapper)
                          (New 1 800 sample_opts # rest_history)) = Some sample_final"
    by code_simp
  have before: "frame_at (heap one_wrapper) 1 = Some 8"
    by code_simp
  from callers_frame_never_mutated [OF others hist]
  have "frame_at (heap sample_final) 1 = frame_at (heap one_wrapper) 1"
    by blast
  with hist before show ?thesis
    by simp
qed

section \<open>Warm-up of the temporal filter\<close>

lemma take_append_take: "take n (xs @ take n ys) = take n (xs @ ys)"
  by (simp add: min_def)

lemma feed_window:
  "length (window F) \<le> DATMO_TF_TAPSIZE \<Longrightarrow>
     window (feed wt cs F) = take DATMO_TF_TAPSIZE (rev cs @ window F)"
proof (induction cs arbitrary: F)
  case Nil
  then show ?case by (simp add: feed_def)
next
  case (Cons c cs)
  have step: "feed wt (c # cs) F = feed wt cs (push_curve c F)"
    by (simp add: feed_def smooth_def Let_def)
  have "length (window (push_curve c F)) \<le> DATMO_TF_TAPSIZE"
    by (simp add: push_curve_def)
  from Cons.IH [OF this] have "window (feed wt (c # cs) F)
      = take DATMO_TF_TAPSIZE (rev cs @ take DATMO_TF_TAPSIZE (c # window F))"
    using step by (simp add: push_curve_def)
  then show ?case by (simp only: take_append_take) simp
qed

lemma feed_index: "frame_index (feed wt cs F) = frame_index F + length cs"
proof (induction cs arbitrary: F)
  case Nil
  then show ?case by (simp add: feed_def)
next
  case (Cons c cs)
  have "feed wt (c # cs) F = feed wt cs (push_curve c F)"
    by (simp add: feed_def smooth_def Let_def)
  then show ?case using Cons.IH [of "push_curve c F"] by (simp add: push_curve_def)
qed

lemma weights_renormalised:
  assumes "(\<Sum>i<k. wt i) \<noteq> (0::real)"
  shows "(\<Sum>i<k. wt i / (\<Sum>i<k. wt i)) = 1"
  using assms by (simp add: sum_divide_distrib [symmetric])

lemma weighted_knot_average:
  "weighted_knot wt win j
     = (\<Sum>i<length win. (wt i / (\<Sum>i<length win. wt i)) * (win ! i ! j))"
  by (simp add: weighted_knot_def interv_sum_list_conv_sum_set_nat atLeast0LessThan
        sum_divide_distrib)

text \<open>
  C7. The window never holds more than \<open>DATMO_TF_TAPSIZE\<close> = 26 curves: after \<open>k\<close> frames
  it holds \<open>min k 26\<close>. With positive tap weights and curves over one knot grid, while fewer
  than 26 frames have been seen the output at each knot is the sum of the \<open>k\<close> curves seen,
  each weighted by its tap weight divided by the sum of the weights of these \<open>k\<close> taps; the
  weights so renormalised add up to 1.
\<close>

theorem warm_up_average:
  assumes wpos: "\<forall>i<DATMO_TF_TAPSIZE. 0 < wt i"
      and grid: "\<forall>d\<in>set cs. length d = length c"
      and j: "j < length c"
  shows "length (window (feed wt cs new_filter)) \<le> DATMO_TF_TAPSIZE
       \<and> length (window (snd (smooth wt c (feed wt cs new_filter)))) = min (Suc (length cs)) DATMO_TF_TAPSIZE
       \<and> frame_index (snd (smooth wt c (feed wt cs new_filter))) = Suc (length cs)
       \<and> (Suc (length cs) < DATMO_TF_TAPSIZE \<longrightarrow>
            fst (smooth wt c (feed wt cs new_filter)) ! j
              = (\<Sum>i<Suc (length cs). (wt i / (\<Sum>i<Suc (length cs). wt i)) * ((c # rev cs) ! i ! j))
            \<and> (\<Sum>i<Suc (length cs). wt i / (\<Sum>i<Suc (length cs). wt i)) = 1)"
proof -
  let ?F = "feed wt cs new_filter"
  have w: "window ?F = take DATMO_TF_TAPSIZE (rev cs)"
    using feed_window [of new_filter wt cs] by (simp add: new_filter_def)
  have w': "window (snd (smooth wt c ?F)) = take DATMO_TF_TAPSIZE (c # rev cs)"
    using take_append_take [of DATMO_TF_TAPSIZE "[c]" "rev cs"]
    by (simp add: smooth_def Let_def push_curve_def w)
  have 1: "length (window ?F) \<le> DATMO_TF_TAPSIZE" by (simp add: w)
  have 2: "length (window (snd (smooth wt c ?F))) = min (Suc (length cs)) DATMO_TF_TAPSIZE"
    by (simp add: w' min.commute)
  have 3: "frame_index (snd (smooth wt c ?F)) = Suc (length cs)"
    by (simp add: smooth_def Let_def push_curve_def feed_index new_filter_def)
  have 4: "fst (smooth wt c ?F) ! j
              = (\<Sum>i<Suc (length cs). (wt i / (\<Sum>i<Suc (length cs). wt i)) * ((c # rev cs) ! i ! j))"
       and 5: "(\<Sum>i<Suc (length cs). wt i / (\<Sum>i<Suc (length cs). wt i)) = 1"
    if k: "Suc (length cs) < DATMO_TF_TAPSIZE"
  proof -
    from k have full: "window (snd (smooth wt c ?F)) = c # rev cs"
      by (simp add: w')
    have "fst (smooth wt c ?F) ! j = weighted_knot wt (c # rev cs) j"
      using j full by (simp add: smooth_def Let_def)
    then show "fst (smooth wt c ?F) ! j
              = (\<Sum>i<Suc (length cs). (wt i / (\<Sum>i<Suc (length cs). wt i)) * ((c # rev cs) ! i ! j))"
      by (simp only: weighted_knot_average) simp
    have "0 < (\<Sum>i<Suc (length cs). wt i)"
      using wpos k by (intro sum_pos) auto
    then show "(\<Sum>i<Suc (length cs). wt i / (\<Sum>i<Suc (length cs). wt i)) = 1"
      by (intro weights_renormalised) simp
  qed
  show ?thesis using 1 2 3 4 5 by blast
qed


theorem warm_up_average_witness:
  "fst (smooth sample_weights [3, 5] (feed sample_weights [[1, 3]] new_filter)) ! 0 = 7 / 3
   \<and> length (window (snd (smooth sample_weights [3, 5] (feed sample_weights [[1, 3]] new_filter))))
       = 2"
proof -
  have wpos: "\<forall>i<DATMO_TF_TAPSIZE. 0 < sample_weights i"
    by (simp add: sample_weights_def)
  have grid: "\<forall>d\<in>set [[1, 3]]. length d = length [3, 5 :: real]"
    by simp
  have j: "0 < length [3, 5 :: real]"
    by simp
  have k: "Suc (length [[1, 3 :: real]]) < DATMO_TF_TAPSIZE"
    by (simp add: DATMO_TF_TAPSIZE_def)
  from warm_up_average [OF wpos grid j] k
  have "fst (smooth sample_weights [3, 5] (feed sample_weights [[1, 3]] new_filter)) ! 0
          = (\<Sum>i<Suc (length [[1, 3 :: real]]).
               (sample_weights i / (\<Sum>i<Suc (length [[1, 3 :: real]]). sample_weights i))
                 * (([3, 5] # rev [[1, 3]]) ! i ! 0))"
    and "length (window (snd (smooth sample_weights [3, 5] (feed sample_weights [[1, 3]] new_filter))))
          = min (Suc (length [[1, 3 :: real]])) DATMO_TF_TAPSIZE"
    by blast+
  then show ?thesis
    by (simp add: sample_weights_def DATMO_TF_TAPSIZE_def)
qed

end
